theory Spec2Isabelle
  imports Complex_Main
begin

section \<open>The e621 client of \<^verbatim>\<open>src/main.py\<close>: data model\<close>

text \<open>
  The dataclasses of the client become records. Python compares dataclass instances field
  by field (\<^verbatim>\<open>eq=True\<close> is the default of \<^verbatim>\<open>@dataclass\<close>), which is the equality of
  HOL records; \<^verbatim>\<open>list.remove\<close> relies on it. Field names are the source's, with the
  record's name appended where two records share a name or the name is a HOL constant
  (\<^verbatim>\<open>id\<close>, \<^verbatim>\<open>total\<close>, \<^verbatim>\<open>all\<close>). Python integers are unbounded: \<^typ>\<open>int\<close>.
\<close>

record Score =
  up :: int
  down :: int
  total_Score :: int

record Tags =
  general :: "string list"
  species :: "string list"
  character :: "string list"
  copyright :: "string list"
  artist :: "string list"
  invalid :: "string list"
  lore :: "string list"
  meta :: "string list"

text \<open>The property \<^verbatim>\<open>Tags.all\<close>: the eight categories chained in this order.\<close>

definition all_Tags :: "Tags \<Rightarrow> string list" where
  "all_Tags t =
     general t @ species t @ character t @ copyright t @ artist t @ invalid t @ lore t @ meta t"

record Flags =
  pending :: bool
  flagged :: bool
  note_locked :: bool
  status_locked :: bool
  rating_locked :: bool
  deleted :: bool

text \<open>
  A \<^verbatim>\<open>Post\<close> has 23 fields. The operations modelled here read \<^verbatim>\<open>id\<close>, \<^verbatim>\<open>score\<close>,
  \<^verbatim>\<open>tags\<close> and \<^verbatim>\<open>flags\<close>; the other nineteen (\<^verbatim>\<open>created_at\<close>, \<^verbatim>\<open>file\<close>, \<^verbatim>\<open>preview\<close>,
  \<^verbatim>\<open>sample\<close>, \<^verbatim>\<open>rating\<close>, ...) take part in equality only and are kept together in
  \<open>other_fields\<close>, of a type \<open>'r\<close> left open.
\<close>

record 'r Post =
  id_Post :: int
  score :: Score
  tags :: Tags
  flags :: Flags
  other_fields :: 'r

text \<open>The dataclass \<^verbatim>\<open>List\<close> (renamed: \<open>List\<close> is the name of HOL's list theory).\<close>

record 'r PostList =
  posts :: "'r Post list"

record 'r Pool =
  id_Pool :: int
  name :: string
  created_at :: string
  updated_at :: "string option"
  creator_id :: int
  description :: string
  is_active :: bool
  category :: string
  is_deleted :: bool
  post_ids :: "int list"
  creator_name :: string
  post_count :: int
  posts_Pool :: "'r Post list"

record Wiki =
  id_Wiki :: int
  created_at_Wiki :: "string option"
  updated_at_Wiki :: "string option"
  title :: "string option"
  body :: "string option"
  creator_id_Wiki :: "int option"
  is_locked :: bool
  updater_id :: "int option"
  is_deleted_Wiki :: bool
  other_names :: "string list"
  creator_name_Wiki :: "string option"
  category_name :: int

text \<open>The fields of the exception dataclass \<^verbatim>\<open>E621Error\<close>, with its defaults.\<close>

record E621Error =
  success :: bool
  reason :: "string option"
  code :: "int option"
  message :: string

text \<open>
  Exceptions are values. \<open>Raised\<close> is \<^verbatim>\<open>raise E621Error(...)\<close>; \<open>ValueError\<close> is what
  \<^verbatim>\<open>list.remove\<close> raises on an absent element; \<open>IndexError\<close> is \<^verbatim>\<open>[0]\<close> on an empty
  list; \<open>DecodeError\<close> stands for every exception of the decoding collaborators
  (\<^verbatim>\<open>json.loads\<close>, the keyword construction \<^verbatim>\<open>E621Error(**d)\<close>, the subscripts
  \<^verbatim>\<open>['post']\<close> and \<^verbatim>\<open>['posts']\<close>, \<^verbatim>\<open>dacite.from_dict\<close>) on a body that has not the shape
  the operation expects.
\<close>

datatype exn = Raised E621Error | ValueError | IndexError | DecodeError

section \<open>The network and the clock\<close>

text \<open>
  The \<^verbatim>\<open>str | int\<close> argument of \<^verbatim>\<open>wiki\<close>, and Python's truth value of it.
\<close>

datatype query = QStr string | QInt int

fun falsy :: "query \<Rightarrow> bool" where
  "falsy (QStr s) = (s = [])"
| "falsy (QInt n) = (n = 0)"

text \<open>
  A GET request, by endpoint and query parameters instead of the URL text that
  \<^verbatim>\<open>urlencode\<close> and the f-strings build:
  \<^item> \<open>PostJson i\<close> is \<^verbatim>\<open>https://e621.net/posts/{i}.json\<close>;
  \<^item> \<open>PostsJson url t l p\<close> is \<^verbatim>\<open>{url}posts.json?tags=t&limit=l&page=p\<close>;
  \<^item> \<open>PoolsJsonId i\<close> is \<^verbatim>\<open>https://e621.net/pools.json/?commit=search&search[id]=i\<close>;
  \<^item> \<open>PoolsJsonName q\<close> is the same with \<^verbatim>\<open>search[name_matches]=q\<close>;
  \<^item> \<open>WikiJson q\<close> is \<^verbatim>\<open>https://e621.net/wiki_pages/{q}.json\<close>.
\<close>

datatype request =
    PostJson int
  | PostsJson (base: string) (q_tags: string) (q_limit: int) (q_page: int)
  | PoolsJsonId int
  | PoolsJsonName string
  | WikiJson query

text \<open>
  The response body after \<^verbatim>\<open>json.loads\<close>, by what the operations can do with it:
  \<^item> \<open>ErrorBody e\<close>: an object that \<^verbatim>\<open>E621Error(**d)\<close> accepts, giving the fields \<open>e\<close>;
  \<^item> \<open>PostBody x\<close>: an object with an entry \<^verbatim>\<open>post\<close>;
  \<^item> \<open>PostsBody xs\<close>: an object with an entry \<^verbatim>\<open>posts\<close> that \<^verbatim>\<open>posts += ...\<close> can
    extend the accumulator with (a list, or an object or a string, which extend it with
    their keys or characters), \<open>xs\<close> being the items added;
  \<^item> \<open>PoolsBody xs\<close>: a list of the items \<open>xs\<close>, or a string, its characters being the
    items (an empty string and an empty list behave alike: \<^verbatim>\<open>[0]\<close> raises
    \<^verbatim>\<open>IndexError\<close> on both, and both iterate over nothing);
  \<^item> \<open>WikiBody x\<close>: an object read as a wiki page;
  \<^item> \<open>EmptyObject\<close>: the object \<^verbatim>\<open>{}\<close>, which iterates over nothing but has no key;
  \<^item> \<open>Malformed\<close>: a body that is not JSON, or JSON of no shape above.

  An item that \<^verbatim>\<open>dacite.from_dict\<close> cannot turn into the dataclass is \<open>None\<close>.
\<close>

datatype 'r payload =
    ErrorBody E621Error
  | PostBody "'r Post option"
  | PostsBody "'r Post option list"
  | PoolsBody "'r Pool option list"
  | WikiBody "Wiki option"
  | EmptyObject
  | Malformed

record 'r response =
  status :: int
  data :: "'r payload"

text \<open>
  What happened, in order: \<open>Limiter t\<close> is \<^verbatim>\<open>api_limiter\<close> letting its caller through
  and stamping \<open>t\<close>; \<open>Http r\<close> is one call of \<^verbatim>\<open>pool_manager.request\<close>.
\<close>

datatype event = Limiter int | Http request

text \<open>
  The state the operations run in: \<^verbatim>\<open>self.last_search\<close> and the wall clock, both in
  microseconds since the epoch (the resolution of \<^verbatim>\<open>datetime\<close>), and the trace of events.
  The client is modelled with one thread of control; the reentrant lock that
  \<^verbatim>\<open>api_limiter\<close> takes is then always free and is not represented.
\<close>

record state =
  last_search :: int
  clock :: int
  trace :: "event list"

text \<open>\<^verbatim>\<open>__init\<close> sets \<^verbatim>\<open>last_search = datetime.fromtimestamp(0)\<close>.\<close>

definition init :: "int \<Rightarrow> state" where
  "init t = \<lparr>last_search = 0, clock = t, trace = []\<rparr>"

fun requests_of :: "event list \<Rightarrow> request list" where
  "requests_of [] = []"
| "requests_of (Limiter t # es) = requests_of es"
| "requests_of (Http r # es) = r # requests_of es"

text \<open>
  The trace is gated when every request comes right after a pass through the limiter.
\<close>

fun gated :: "event list \<Rightarrow> bool" where
  "gated [] = True"
| "gated (Limiter t # Http r # es) = gated es"
| "gated (Limiter t # es) = gated es"
| "gated (Http r # es) = False"

section \<open>The rate limiter\<close>

text \<open>
  \<^verbatim>\<open>
  def api_limiter(self):
      with self._lock:
          while self.last_search + timedelta(0, 0.5) > datetime.now(self.last_search.tzinfo):
              time.sleep(0.01)
          self.last_search = datetime.now()
  \<close>
  \<^verbatim>\<open>timedelta(0, 0.5)\<close> is 500000 microseconds. In the model time passes only in
  \<^verbatim>\<open>time.sleep(0.01)\<close>, by exactly 10000 microseconds.
\<close>

function wait_limiter :: "state \<Rightarrow> state" where
  "wait_limiter s =
     (if last_search s + 500000 > clock s
      then wait_limiter (s\<lparr>clock := clock s + 10000\<rparr>)
      else s)"
  by pat_completeness auto
termination
  by (relation "measure (\<lambda>s. nat (last_search s + 500000 - clock s))") auto

declare wait_limiter.simps [simp del]

definition api_limiter :: "state \<Rightarrow> state" where
  "api_limiter s =
     (let s' = wait_limiter s
      in s'\<lparr>last_search := clock s', trace := trace s' @ [Limiter (clock s')]\<rparr>)"

text \<open>\<^verbatim>\<open>self.pool_manager.request('GET', ...)\<close>: the call is recorded; the server answers.\<close>

definition sent :: "request \<Rightarrow> state \<Rightarrow> state" where
  "sent req s = s\<lparr>trace := trace s @ [Http req]\<rparr>"

text \<open>\<^verbatim>\<open>raise E621Error(**json.loads(r.data.decode('utf-8')))\<close>, as the exception raised.\<close>

fun error_of :: "'r payload \<Rightarrow> exn" where
  "error_of (ErrorBody e) = Raised e"
| "error_of _ = DecodeError"

section \<open>The operations\<close>

text \<open>
  \<^verbatim>\<open>
  def post(self, post_id: int):
      self.api_limiter()
      r = self.pool_manager.request('GET', f'https://e621.net/posts/{post_id}.json')
      post = json.loads(r.data.decode('utf-8'))
      if r.status != 200:
          raise E621Error(**post)
      return from_dict(Post, post['post'])
  \<close>
  The body is decoded before the status is looked at.
\<close>

definition post :: "(request \<Rightarrow> 'r response) \<Rightarrow> int \<Rightarrow> state \<Rightarrow> state \<times> (exn + 'r Post)" where
  "post srv i s =
     (let s1 = api_limiter s;
          s2 = sent (PostJson i) s1;
          r = srv (PostJson i)
      in case data r of
           Malformed \<Rightarrow> (s2, Inl DecodeError)
         | b \<Rightarrow>
             if status r \<noteq> 200 then (s2, Inl (error_of b))
             else (case b of PostBody (Some p) \<Rightarrow> (s2, Inr p) | _ \<Rightarrow> (s2, Inl DecodeError)))"

text \<open>\<^verbatim>\<open>' '.join(tags)\<close>\<close>

fun join :: "string list \<Rightarrow> string" where
  "join [] = []"
| "join [t] = t"
| "join (t # ts) = t @ '' '' @ join ts"

text \<open>\<^verbatim>\<open>json.loads(r.data.decode('utf-8'))['posts']\<close>\<close>

fun posts_of :: "'r payload \<Rightarrow> exn + 'r Post option list" where
  "posts_of (PostsBody ps) = Inr ps"
| "posts_of _ = Inl DecodeError"

text \<open>
  The pagination loop of \<^verbatim>\<open>search\<close>:
  \<^verbatim>\<open>
  while limit > 0:
      self.api_limiter()
      params = {"tags": ' '.join(tags), "limit": limit, "page": page}
      r = self.pool_manager.request('GET', f'{url}posts.json?{urlencode(params)}')
      if r.status != 200:
          raise E621Error(**json.loads(r.data.decode('utf-8')))
      posts += json.loads(r.data.decode('utf-8'))['posts']
      limit -= 320
      page += 1
  \<close>
  \<open>limit\<close> and \<open>page\<close> are the loop's variables: the request is built from their current
  values.
\<close>

function search_loop ::
  "(request \<Rightarrow> 'r response) \<Rightarrow> string \<Rightarrow> string list \<Rightarrow> int \<Rightarrow> int \<Rightarrow> 'r Post option list \<Rightarrow>
   state \<Rightarrow> state \<times> (exn + 'r Post option list)" where
  "search_loop srv url tgs limit page acc s =
     (if limit > 0 then
        (let s1 = api_limiter s;
             req = PostsJson url (join tgs) limit page;
             s2 = sent req s1;
             r = srv req
         in if status r \<noteq> 200 then (s2, Inl (error_of (data r)))
            else (case posts_of (data r) of
                    Inl e \<Rightarrow> (s2, Inl e)
                  | Inr ps \<Rightarrow> search_loop srv url tgs (limit - 320) (page + 1) (acc @ ps) s2))
      else (s, Inr acc))"
  by pat_completeness auto
termination
  by (relation "measure (\<lambda>(srv, url, tgs, limit, page, acc, s). nat limit)") auto

declare search_loop.simps [simp del]

text \<open>
  \<^verbatim>\<open>from_dict(List, {"posts": posts})\<close>: every accumulated item must decode to a \<^verbatim>\<open>Post\<close>.
\<close>

fun from_dict_posts :: "'r Post option list \<Rightarrow> exn + 'r Post list" where
  "from_dict_posts [] = Inr []"
| "from_dict_posts (None # xs) = Inl DecodeError"
| "from_dict_posts (Some p # xs) =
     (case from_dict_posts xs of Inl e \<Rightarrow> Inl e | Inr ps \<Rightarrow> Inr (p # ps))"

text \<open>\<^verbatim>\<open>xs.remove(x)\<close>: drops the first element equal to \<open>x\<close>, raises \<open>ValueError\<close> if none is.\<close>

fun remove :: "'a \<Rightarrow> 'a list \<Rightarrow> exn + 'a list" where
  "remove x [] = Inl ValueError"
| "remove x (y # ys) =
     (if y = x then Inr ys
      else (case remove x ys of Inl e \<Rightarrow> Inl e | Inr zs \<Rightarrow> Inr (y # zs)))"

text \<open>\<^verbatim>\<open>any(item in blacklist for item in post.tags.all)\<close>\<close>

definition blacklisted :: "string list \<Rightarrow> 'r Post \<Rightarrow> bool" where
  "blacklisted blacklist p = list_ex (\<lambda>item. item \<in> set blacklist) (all_Tags (tags p))"

text \<open>
  The body of the filtering loop, on the post \<open>p\<close> of the snapshot and the current value
  \<open>cur\<close> of \<^verbatim>\<open>search_list.posts\<close>:
  \<^verbatim>\<open>
  if any(item in blacklist for item in post.tags.all):
      search_list.posts.remove(post)
  if post.score.total <= score:
      search_list.posts.remove(post)
  \<close>
\<close>

definition filter_step :: "string list \<Rightarrow> int \<Rightarrow> 'r Post \<Rightarrow> 'r Post list \<Rightarrow> exn + 'r Post list" where
  "filter_step blacklist sc p cur =
     (case (if blacklisted blacklist p then remove p cur else Inr cur) of
        Inl e \<Rightarrow> Inl e
      | Inr cur1 \<Rightarrow> (if total_Score (score p) \<le> sc then remove p cur1 else Inr cur1))"

text \<open>
  \<^verbatim>\<open>for post in list(search_list.posts): ...\<close>: the loop runs over a copy (the first list)
  and removes from the live list (the second).
\<close>

fun filter_loop :: "string list \<Rightarrow> int \<Rightarrow> 'r Post list \<Rightarrow> 'r Post list \<Rightarrow> exn + 'r Post list" where
  "filter_loop blacklist sc [] cur = Inr cur"
| "filter_loop blacklist sc (p # snapshot) cur =
     (case filter_step blacklist sc p cur of
        Inl e \<Rightarrow> Inl e
      | Inr cur' \<Rightarrow> filter_loop blacklist sc snapshot cur')"

text \<open>
  \<^verbatim>\<open>
  def search(self, tags: list, limit: int = 160, page: int = 1, safe: bool = False,
             blacklist=None, score: int = -10):
      if blacklist is None:
          blacklist = list()
      url = 'https://e621.net/' if not safe else 'https://e926.net/'
      posts = []
      while limit > 0: ...
      search_list = from_dict(List, {"posts": posts})
      for post in list(search_list.posts): ...
      return search_list
  \<close>
\<close>

definition search ::
  "(request \<Rightarrow> 'r response) \<Rightarrow> string list \<Rightarrow> int \<Rightarrow> int \<Rightarrow> bool \<Rightarrow> string list option \<Rightarrow> int \<Rightarrow>
   state \<Rightarrow> state \<times> (exn + 'r PostList)" where
  "search srv tgs limit page safe blacklist sc s =
     (let bl = (case blacklist of None \<Rightarrow> [] | Some b \<Rightarrow> b);
          url = (if \<not> safe then ''https://e621.net/'' else ''https://e926.net/'')
      in case search_loop srv url tgs limit page [] s of
           (s', Inl e) \<Rightarrow> (s', Inl e)
         | (s', Inr raw) \<Rightarrow>
             (case from_dict_posts raw of
                Inl e \<Rightarrow> (s', Inl e)
              | Inr ps \<Rightarrow>
                  (case filter_loop bl sc ps ps of
                     Inl e \<Rightarrow> (s', Inl e)
                   | Inr kept \<Rightarrow> (s', Inr \<lparr>posts = kept\<rparr>))))"

text \<open>The decimal text of an integer, as the f-string \<^verbatim>\<open>f'pool:{pool.id}'\<close> renders it.\<close>

definition digit :: "nat \<Rightarrow> char" where
  "digit d = char_of (48 + d)"

function str_nat :: "nat \<Rightarrow> string" where
  "str_nat n = (if n < 10 then [digit n] else str_nat (n div 10) @ [digit (n mod 10)])"
  by pat_completeness auto
termination
  by (relation "measure id") auto

declare str_nat.simps [simp del]

definition str_int :: "int \<Rightarrow> string" where
  "str_int i = (if i < 0 then CHR ''-'' # str_nat (nat (- i)) else str_nat (nat i))"

text \<open>
  The two loops of \<^verbatim>\<open>get_pool_images\<close>:
  \<^verbatim>\<open>
  for post in pool.post_ids:
      for p in r.posts:
          if p.flags.deleted:
              continue
          if p.id == post:
              posts.append(p)
  \<close>
\<close>

fun scan_posts :: "int \<Rightarrow> 'r Post list \<Rightarrow> 'r Post list \<Rightarrow> 'r Post list" where
  "scan_posts i [] acc = acc"
| "scan_posts i (p # ps) acc =
     (if deleted (flags p) then scan_posts i ps acc
      else if id_Post p = i then scan_posts i ps (acc @ [p])
      else scan_posts i ps acc)"

fun scan_ids :: "int list \<Rightarrow> 'r Post list \<Rightarrow> 'r Post list \<Rightarrow> 'r Post list" where
  "scan_ids [] rs acc = acc"
| "scan_ids (i # ids) rs acc = scan_ids ids rs (scan_posts i rs acc)"

text \<open>
  \<^verbatim>\<open>
  def get_pool_images(self, pool: Pool):
      r = self.search([f'pool:{pool.id}'], limit=1280, score=-5000)
      posts = []
      for post in pool.post_ids: ...
      return from_dict(List, {"posts": posts})
  \<close>
\<close>

definition get_pool_images ::
  "(request \<Rightarrow> 'r response) \<Rightarrow> 'r Pool \<Rightarrow> state \<Rightarrow> state \<times> (exn + 'r PostList)" where
  "get_pool_images srv pool s =
     (case search srv [''pool:'' @ str_int (id_Pool pool)] 1280 1 False None (- 5000) s of
        (s', Inl e) \<Rightarrow> (s', Inl e)
      | (s', Inr r) \<Rightarrow> (s', Inr \<lparr>posts = scan_ids (post_ids pool) (posts r) []\<rparr>))"

text \<open>
  \<^verbatim>\<open>
  def pool(self, pool_id: int):
      encode = urlencode({'commit': 'search', 'search[id]': pool_id})
      r = self.pool_manager.request('GET', f'https://e621.net/pools.json/?{encode}')
      if r.status != 200:
          raise E621Error(**json.loads(r.data.decode('utf-8')))
      pool = from_dict(Pool, json.loads(r.data.decode('utf-8'))[0])
      pool.posts = self.get_pool_images(pool).posts
      return pool
  \<close>
\<close>

definition pool :: "(request \<Rightarrow> 'r response) \<Rightarrow> int \<Rightarrow> state \<Rightarrow> state \<times> (exn + 'r Pool)" where
  "pool srv pool_id s =
     (let s1 = sent (PoolsJsonId pool_id) s;
          r = srv (PoolsJsonId pool_id)
      in if status r \<noteq> 200 then (s1, Inl (error_of (data r)))
         else (case data r of
                 PoolsBody [] \<Rightarrow> (s1, Inl IndexError)
               | PoolsBody (Some pl # rest) \<Rightarrow>
                   (case get_pool_images srv pl s1 of
                      (s2, Inl e) \<Rightarrow> (s2, Inl e)
                    | (s2, Inr l) \<Rightarrow> (s2, Inr (pl\<lparr>posts_Pool := posts l\<rparr>)))
               | _ \<Rightarrow> (s1, Inl DecodeError)))"

text \<open>\<^verbatim>\<open>[from_dict(Pool, x) for x in json.loads(...)]\<close>\<close>

fun from_dict_pools :: "'r Pool option list \<Rightarrow> exn + 'r Pool list" where
  "from_dict_pools [] = Inr []"
| "from_dict_pools (None # xs) = Inl DecodeError"
| "from_dict_pools (Some p # xs) =
     (case from_dict_pools xs of Inl e \<Rightarrow> Inl e | Inr ps \<Rightarrow> Inr (p # ps))"

text \<open>
  \<^verbatim>\<open>
  def pool_search(self, query: str):
      self.api_limiter()
      encode = urlencode({'commit': 'search', 'search[name_matches]': query})
      r = self.pool_manager.request('GET', f'https://e621.net/pools.json/?{encode}')
      if r.status != 200:
          raise E621Error(**json.loads(r.data.decode('utf-8')))
      return [from_dict(Pool, x) for x in json.loads(r.data.decode('utf-8'))]
  \<close>
  The comprehension iterates over the body: over the items of a list, over nothing for
  \<^verbatim>\<open>{}\<close>, and over the keys of any other object, none of which is a pool.
\<close>

definition pool_search ::
  "(request \<Rightarrow> 'r response) \<Rightarrow> string \<Rightarrow> state \<Rightarrow> state \<times> (exn + 'r Pool list)" where
  "pool_search srv q s =
     (let s1 = api_limiter s;
          s2 = sent (PoolsJsonName q) s1;
          r = srv (PoolsJsonName q)
      in if status r \<noteq> 200 then (s2, Inl (error_of (data r)))
         else (case data r of
                 PoolsBody xs \<Rightarrow> (s2, from_dict_pools xs)
               | EmptyObject \<Rightarrow> (s2, Inr [])
               | _ \<Rightarrow> (s2, Inl DecodeError)))"

text \<open>
  \<^verbatim>\<open>
  def wiki(self, query: str | int):
      self.api_limiter()
      if not query:
          raise E621Error(False, "No Query Provided")
      r = self.pool_manager.request('GET', f'https://e621.net/wiki_pages/{query}.json')
      if r.status != 200:
          raise E621Error(**json.loads(r.data.decode('utf-8')))
      return from_dict(Wiki, json.loads(r.data.decode('utf-8')))
  \<close>
\<close>

definition wiki :: "(request \<Rightarrow> 'r response) \<Rightarrow> query \<Rightarrow> state \<Rightarrow> state \<times> (exn + Wiki)" where
  "wiki srv q s =
     (let s1 = api_limiter s
      in if falsy q
         then (s1, Inl (Raised \<lparr>success = False, reason = Some ''No Query Provided'',
                                code = None, message = ''''\<rparr>))
         else
           (let s2 = sent (WikiJson q) s1;
                r = srv (WikiJson q)
            in if status r \<noteq> 200 then (s2, Inl (error_of (data r)))
               else (case data r of
                       WikiBody (Some w) \<Rightarrow> (s2, Inr w)
                     | _ \<Rightarrow> (s2, Inl DecodeError))))"

section \<open>Notions the properties are stated with\<close>

text \<open>The host that \<^verbatim>\<open>search\<close> selects, and the blacklist it uses when given none.\<close>

definition base_url :: "bool \<Rightarrow> string" where
  "base_url safe = (if \<not> safe then ''https://e621.net/'' else ''https://e926.net/'')"

definition blacklist_or_empty :: "string list option \<Rightarrow> string list" where
  "blacklist_or_empty blacklist = (case blacklist of None \<Rightarrow> [] | Some b \<Rightarrow> b)"

text \<open>
  The request that the \<open>k\<close>-th round of the pagination loop builds (\<open>k = 0\<close> is the first
  round): \<open>limit\<close> has been decremented \<open>k\<close> times by 320 and \<open>page\<close> incremented \<open>k\<close> times.
\<close>

definition page_request :: "string \<Rightarrow> string list \<Rightarrow> int \<Rightarrow> int \<Rightarrow> nat \<Rightarrow> request" where
  "page_request url tgs limit page k = PostsJson url (join tgs) (limit - 320 * int k) (page + int k)"

text \<open>A page answer that lets the loop go on: status 200 and a body with a \<^verbatim>\<open>posts\<close> list.\<close>

definition page_ok :: "(request \<Rightarrow> 'r response) \<Rightarrow> request \<Rightarrow> bool" where
  "page_ok srv req = (status (srv req) = 200 \<and> \<not> isl (posts_of (data (srv req))))"

text \<open>
  The value of \<^verbatim>\<open>search_list.posts\<close> when the filtering loop of \<^verbatim>\<open>search\<close> starts: the
  posts of all pages, decoded.
\<close>

definition accumulated ::
  "(request \<Rightarrow> 'r response) \<Rightarrow> string list \<Rightarrow> int \<Rightarrow> int \<Rightarrow> bool \<Rightarrow> state \<Rightarrow> exn + 'r Post list" where
  "accumulated srv tgs limit page safe s =
     (case snd (search_loop srv (base_url safe) tgs limit page [] s) of
        Inl e \<Rightarrow> Inl e
      | Inr raw \<Rightarrow> from_dict_posts raw)"

section \<open>Example data\<close>

text \<open>A post with the given id, total score, general tags and deleted flag.\<close>

definition example_post :: "int \<Rightarrow> int \<Rightarrow> string list \<Rightarrow> bool \<Rightarrow> unit Post" where
  "example_post i t gen del =
     \<lparr>id_Post = i,
      score = \<lparr>up = 0, down = 0, total_Score = t\<rparr>,
      tags = \<lparr>general = gen, species = [], character = [], copyright = [], artist = [],
              invalid = [], lore = [], meta = []\<rparr>,
      flags = \<lparr>pending = False, flagged = False, note_locked = False, status_locked = False,
               rating_locked = False, deleted = del\<rparr>,
      other_fields = ()\<rparr>"

text \<open>A server that answers every request with status 200 and the same posts.\<close>

definition serve_posts :: "unit Post list \<Rightarrow> request \<Rightarrow> unit response" where
  "serve_posts ps req = \<lparr>status = 200, data = PostsBody (map Some ps)\<rparr>"

text \<open>The error body of the specification's example, \<^verbatim>\<open>{"success": false, "reason": "not found", "code": 404}\<close>.\<close>

definition not_found :: E621Error where
  "not_found = \<lparr>success = False, reason = Some ''not found'', code = Some 404, message = ''''\<rparr>"

text \<open>A pool with the given id and member ids, its \<^verbatim>\<open>posts\<close> not yet filled in.\<close>

definition example_pool :: "int \<Rightarrow> int list \<Rightarrow> unit Pool" where
  "example_pool i ids =
     \<lparr>id_Pool = i, name = ''pool'', created_at = '''', updated_at = None, creator_id = 1,
      description = '''', is_active = True, category = ''series'', is_deleted = False,
      post_ids = ids, creator_name = ''someone'', post_count = int (length ids), posts_Pool = []\<rparr>"

text \<open>
  A server that knows the pool 7, with members 5, 3 and 9, and answers a post search page
  by page from the given list of pages; everything else, and every page past the last,
  is answered with status 404 and the error body above.
\<close>

definition serve_pages :: "unit Post list list \<Rightarrow> request \<Rightarrow> unit response" where
  "serve_pages pages req =
     (case req of
        PostsJson u t l pg \<Rightarrow>
          (if 1 \<le> pg \<and> pg \<le> int (length pages)
           then \<lparr>status = 200, data = PostsBody (map Some (pages ! nat (pg - 1)))\<rparr>
           else \<lparr>status = 404, data = ErrorBody not_found\<rparr>)
      | PoolsJsonId i \<Rightarrow>
          (if i = 7 then \<lparr>status = 200, data = PoolsBody [Some (example_pool 7 [5, 3, 9])]\<rparr>
           else \<lparr>status = 404, data = ErrorBody not_found\<rparr>)
      | _ \<Rightarrow> \<lparr>status = 404, data = ErrorBody not_found\<rparr>)"

section \<open>The trace of a search\<close>

lemma requests_of_append: "requests_of (xs @ ys) = requests_of xs @ requests_of ys"
  by (induction xs rule: requests_of.induct) simp_all

lemma trace_wait_limiter: "trace (wait_limiter s) = trace s"
proof (induction s rule: wait_limiter.induct)
  case (1 s)
  then show ?case by (subst wait_limiter.simps) simp
qed

lemma requests_api_limiter: "requests_of (trace (api_limiter s)) = requests_of (trace s)"
  by (simp add: api_limiter_def Let_def trace_wait_limiter requests_of_append)

lemma requests_sent: "requests_of (trace (sent r s)) = requests_of (trace s) @ [r]"
  by (simp add: sent_def requests_of_append)

lemma pages_step:
  assumes "0 < (limit::int)"
  shows "nat \<lceil>real_of_int limit / 320\<rceil> = Suc (nat \<lceil>real_of_int (limit - 320) / 320\<rceil>)"
proof -
  have "real_of_int (limit - 320) / 320 = real_of_int limit / 320 - 1" by simp
  then have e: "\<lceil>real_of_int (limit - 320) / 320\<rceil> = \<lceil>real_of_int limit / 320\<rceil> - 1"
    by (simp only: ceiling_diff_one)
  have c: "0 < \<lceil>real_of_int limit / 320\<rceil>" using assms by simp
  show ?thesis unfolding e using c by arith
qed

lemma pages_none: "(limit::int) \<le> 0 \<Longrightarrow> nat \<lceil>real_of_int limit / 320\<rceil> = 0"
  by (simp add: divide_nonpos_pos)

lemma page_request_shift:
  "page_request url tgs (limit - 320) (page + 1) k = page_request url tgs limit page (Suc k)"
  by (simp add: page_request_def algebra_simps)

lemma search_loop_pages:
  "(\<forall>k < nat \<lceil>real_of_int limit / 320\<rceil>. page_ok srv (page_request url tgs limit page k)) \<Longrightarrow>
   requests_of (trace (fst (search_loop srv url tgs limit page acc s))) =
     requests_of (trace s) @ map (page_request url tgs limit page) [0..<nat \<lceil>real_of_int limit / 320\<rceil>]
   \<and> \<not> isl (snd (search_loop srv url tgs limit page acc s))"
proof (induction srv url tgs limit page acc s rule: search_loop.induct)
  case (1 srv url tgs limit page acc s)
  show ?case
  proof (cases "0 < limit")
    case False
    then show ?thesis
      by (subst (1 2) search_loop.simps) (simp add: pages_none)
  next
    case True
    let ?n = "nat \<lceil>real_of_int (limit - 320) / 320\<rceil>"
    let ?req = "PostsJson url (join tgs) limit page"
    let ?s2 = "sent ?req (api_limiter s)"
    have n: "nat \<lceil>real_of_int limit / 320\<rceil> = Suc ?n" by (rule pages_step [OF True])
    have r0: "page_request url tgs limit page 0 = ?req" by (simp add: page_request_def)
    from "1.prems" n have ok0: "page_ok srv ?req" using r0 by (metis zero_less_Suc)
    then obtain ps where st: "status (srv ?req) = 200" and ps: "posts_of (data (srv ?req)) = Inr ps"
      by (cases "posts_of (data (srv ?req))") (auto simp: page_ok_def)
    have rest: "\<forall>k < ?n. page_ok srv (page_request url tgs (limit - 320) (page + 1) k)"
      using "1.prems" n by (simp add: page_request_shift)
    have IH: "requests_of (trace (fst (search_loop srv url tgs (limit - 320) (page + 1) (acc @ ps) ?s2))) =
        requests_of (trace ?s2) @ map (page_request url tgs (limit - 320) (page + 1)) [0..<?n]
        \<and> \<not> isl (snd (search_loop srv url tgs (limit - 320) (page + 1) (acc @ ps) ?s2))"
      using "1.IH" [OF True refl refl refl refl _ ps rest] st by simp
    have unf: "search_loop srv url tgs limit page acc s =
        search_loop srv url tgs (limit - 320) (page + 1) (acc @ ps) ?s2"
      using True st ps by (subst search_loop.simps) (simp add: Let_def)
    have m: "map (page_request url tgs limit page) [0..<Suc ?n] =
        ?req # map (page_request url tgs (limit - 320) (page + 1)) [0..<?n]"
      by (simp add: upt_conv_Cons map_Suc_upt [symmetric] page_request_shift r0 del: upt_Suc)
    show ?thesis
      unfolding unf n m using IH by (simp add: requests_sent requests_api_limiter)
  qed
qed

lemma fst_search:
  "fst (search srv tgs limit page safe blacklist sc s) =
   fst (search_loop srv (base_url safe) tgs limit page [] s)"
  by (simp add: search_def base_url_def Let_def split: prod.splits sum.splits)

text \<open>
  Claim C1, as the code has it. A call of \<^verbatim>\<open>search\<close> with \<open>limit > 0\<close> whose page requests are
  all answered with status 200 and a list of posts issues exactly \<open>\<lceil>limit / 320\<rceil>\<close> page
  requests, for the pages \<open>page\<close>, \<open>page + 1\<close>, ...; the \<open>k\<close>-th of them (counting from 0) carries
  the remaining budget \<open>limit - 320 * k\<close> as its \<^verbatim>\<open>limit\<close> parameter, since the loop decrements
  the very variable it sends.
\<close>

theorem search_page_calls:
  assumes "0 < limit"
    and "\<forall>k < nat \<lceil>real_of_int limit / 320\<rceil>. page_ok srv (page_request (base_url safe) tgs limit page k)"
  shows "requests_of (trace (fst (search srv tgs limit page safe blacklist sc s))) =
         requests_of (trace s) @
         map (page_request (base_url safe) tgs limit page) [0..<nat \<lceil>real_of_int limit / 320\<rceil>]"
  using search_loop_pages [OF assms(2)] by (simp add: fst_search)

text \<open>With \<open>limit = 500\<close>: two page requests, for 500 posts and then for 180.\<close>

theorem search_page_calls_witness:
  "requests_of (trace (fst (search (serve_posts []) [''fox''] 500 1 False None (- 10) (init 1000000)))) =
   [PostsJson ''https://e621.net/'' ''fox'' 500 1, PostsJson ''https://e621.net/'' ''fox'' 180 2]"
proof -
  have n: "nat \<lceil>real_of_int 500 / 320\<rceil> = 2" by simp
  have ok: "\<forall>k < nat \<lceil>real_of_int 500 / 320\<rceil>.
      page_ok (serve_posts []) (page_request (base_url False) [''fox''] 500 1 k)"
    by (simp add: page_ok_def serve_posts_def)
  have l: "[0..<2] = [0, Suc 0]" by (simp add: upt_conv_Cons)
  show ?thesis
    using search_page_calls [OF _ ok, of None "- 10" "init 1000000"]
    by (simp add: n l init_def page_request_def base_url_def)
qed

text \<open>
  Claim C1 as the specification words it, that each page request carries the caller's
  original limit, fails: the second request of a search for 500 posts asks for 180.
\<close>

theorem search_original_limit_counterexample:
  "map q_limit (requests_of (trace (fst
     (search (serve_posts []) [''fox''] 500 1 False None (- 10) (init 1000000))))) = [500, 180]
   \<and> map q_limit (requests_of (trace (fst
     (search (serve_posts []) [''fox''] 500 1 False None (- 10) (init 1000000))))) \<noteq> [500, 500]"
proof -
  have "map q_limit (requests_of (trace (fst
     (search (serve_posts []) [''fox''] 500 1 False None (- 10) (init 1000000))))) = [500, 180]"
    by code_simp
  then show ?thesis by simp
qed

text \<open>
  Claim C10. With \<open>limit \<le> 0\<close> the loop body never runs: the state, and with it the trace,
  is unchanged (no request, no pass through the limiter), and the result is an empty list.
\<close>

theorem search_nonpositive_limit:
  "limit \<le> 0 \<Longrightarrow> search srv tgs limit page safe blacklist sc s = (s, Inr \<lparr>posts = []\<rparr>)"
  by (subst search_def, subst search_loop.simps) simp

theorem search_nonpositive_limit_witness:
  "search (serve_posts [example_post 1 10 [] False]) [''fox''] 0 1 False None (- 10) (init 0) =
     (init 0, Inr \<lparr>posts = []\<rparr>)
   \<and> search (serve_posts [example_post 1 10 [] False]) [''fox''] (- 5) 1 True (Some [''gore'']) 3 (init 0) =
     (init 0, Inr \<lparr>posts = []\<rparr>)"
  using search_nonpositive_limit [of 0 "serve_posts [example_post 1 10 [] False]" "[''fox'']" 1 False None "- 10" "init 0"]
    search_nonpositive_limit [of "- 5" "serve_posts [example_post 1 10 [] False]" "[''fox'']" 1 True "Some [''gore'']" 3 "init 0"]
  by simp

section \<open>The wiki lookup\<close>

text \<open>
  Claim C8. On an empty string or the number 0, \<^verbatim>\<open>wiki\<close> raises the locally built
  \<^verbatim>\<open>E621Error(False, "No Query Provided")\<close>; the limiter has run, and no request was sent.
\<close>

theorem wiki_no_query:
  "falsy q \<Longrightarrow>
   wiki srv q s =
     (api_limiter s,
      Inl (Raised \<lparr>success = False, reason = Some ''No Query Provided'', code = None, message = ''''\<rparr>))
   \<and> requests_of (trace (api_limiter s)) = requests_of (trace s)"
  by (simp add: wiki_def Let_def requests_api_limiter)

theorem wiki_no_query_witness:
  "wiki (serve_posts []) (QStr []) (init 1000000) =
     (api_limiter (init 1000000),
      Inl (Raised \<lparr>success = False, reason = Some ''No Query Provided'', code = None, message = ''''\<rparr>))
   \<and> wiki (serve_posts []) (QInt 0) (init 1000000) =
     (api_limiter (init 1000000),
      Inl (Raised \<lparr>success = False, reason = Some ''No Query Provided'', code = None, message = ''''\<rparr>))
   \<and> requests_of (trace (api_limiter (init 1000000))) = []"
  using wiki_no_query [of "QStr []" "serve_posts []" "init 1000000"]
    wiki_no_query [of "QInt 0" "serve_posts []" "init 1000000"]
  by (simp add: init_def)

section \<open>The filtering loop of the search\<close>

lemma remove_eq: "remove x xs = (if x \<in> set xs then Inr (remove1 x xs) else Inl ValueError)"
  by (induction xs) auto

lemma count_list_remove1:
  "count_list (remove1 x xs) v = (if v = x \<and> x \<in> set xs then count_list xs v - 1 else count_list xs v)"
  by (induction xs) auto

lemma filter_remove1_dropped: "\<not> P x \<Longrightarrow> filter P (remove1 x xs) = filter P xs"
  by (induction xs) auto

lemma count_list_pos: "0 < count_list xs x \<longleftrightarrow> x \<in> set xs"
  by (induction xs) auto

lemma filter_step_error: "filter_step bl sc p cur = Inl e \<Longrightarrow> e = ValueError"
  by (auto simp: filter_step_def remove_eq split: if_splits sum.splits)

lemma filter_loop_error: "filter_loop bl sc snap cur = Inl e \<Longrightarrow> e = ValueError"
  by (induction snap arbitrary: cur) (auto split: sum.splits dest: filter_step_error)

lemma filter_step_count:
  "filter_step bl sc p cur = Inr cur' \<Longrightarrow>
   int (count_list cur' v) =
     int (count_list cur v) -
       (if v = p then (if blacklisted bl p then 1 else 0) + (if total_Score (score p) \<le> sc then 1 else 0)
        else 0)"
  by (auto simp: filter_step_def remove_eq count_list_remove1 count_list_pos [symmetric]
      split: if_splits sum.splits)

lemma filter_loop_both:
  "blacklisted bl v \<Longrightarrow> total_Score (score v) \<le> sc \<Longrightarrow>
   count_list cur v < 2 * count_list snap v \<Longrightarrow> filter_loop bl sc snap cur = Inl ValueError"
proof (induction snap arbitrary: cur)
  case Nil
  then show ?case by simp
next
  case (Cons p snap)
  show ?case
  proof (cases "filter_step bl sc p cur")
    case (Inl e)
    then show ?thesis by (simp add: filter_step_error)
  next
    case (Inr cur')
    have "count_list cur' v < 2 * count_list snap v"
      using filter_step_count [OF Inr, of v] Cons.prems by (auto split: if_splits)
    then show ?thesis
      using Cons.IH [OF Cons.prems(1,2)] Inr by simp
  qed
qed

lemma filter_loop_clean:
  "\<forall>p \<in> set snap. \<not> (blacklisted bl p \<and> total_Score (score p) \<le> sc) \<Longrightarrow>
   \<forall>v. blacklisted bl v \<or> total_Score (score v) \<le> sc \<longrightarrow> count_list cur v = count_list snap v \<Longrightarrow>
   filter_loop bl sc snap cur =
     Inr (filter (\<lambda>p. \<not> blacklisted bl p \<and> \<not> total_Score (score p) \<le> sc) cur)"
proof (induction snap arbitrary: cur)
  case Nil
  have "\<forall>v \<in> set cur. \<not> blacklisted bl v \<and> \<not> total_Score (score v) \<le> sc"
  proof
    fix v assume "v \<in> set cur"
    then have "0 < count_list cur v" by (simp add: count_list_pos)
    with Nil(2) show "\<not> blacklisted bl v \<and> \<not> total_Score (score v) \<le> sc" by auto
  qed
  then show ?case by (simp add: filter_id_conv)
next
  case (Cons p snap)
  let ?keep = "\<lambda>p. \<not> blacklisted bl p \<and> \<not> total_Score (score p) \<le> sc"
  show ?case
  proof (cases "?keep p")
    case True
    then have st: "filter_step bl sc p cur = Inr cur" by (simp add: filter_step_def)
    have "\<forall>v. blacklisted bl v \<or> total_Score (score v) \<le> sc \<longrightarrow> count_list cur v = count_list snap v"
      using Cons.prems(2) True by auto
    then show ?thesis using Cons.IH [of cur] Cons.prems(1) st by simp
  next
    case False
    have one: "\<not> (blacklisted bl p \<and> total_Score (score p) \<le> sc)" using Cons.prems(1) by simp
    have "count_list cur p = Suc (count_list snap p)" using Cons.prems(2) False by auto
    then have mem: "p \<in> set cur" using count_list_pos [of cur p] by simp
    have st: "filter_step bl sc p cur = Inr (remove1 p cur)"
      using False one mem by (auto simp: filter_step_def remove_eq)
    have inv: "\<forall>v. blacklisted bl v \<or> total_Score (score v) \<le> sc \<longrightarrow>
        count_list (remove1 p cur) v = count_list snap v"
      using Cons.prems(2) mem by (auto simp: count_list_remove1)
    have "filter_loop bl sc snap (remove1 p cur) = Inr (filter ?keep (remove1 p cur))"
      using Cons.IH [OF _ inv] Cons.prems(1) by simp
    then show ?thesis using st False by (simp add: filter_remove1_dropped)
  qed
qed

lemma filter_loop_eq:
  "filter_loop bl sc xs xs =
     (if \<exists>p \<in> set xs. blacklisted bl p \<and> total_Score (score p) \<le> sc then Inl ValueError
      else Inr (filter (\<lambda>p. \<not> blacklisted bl p \<and> \<not> total_Score (score p) \<le> sc) xs))"
proof (cases "\<exists>p \<in> set xs. blacklisted bl p \<and> total_Score (score p) \<le> sc")
  case True
  then obtain p where p: "p \<in> set xs" "blacklisted bl p" "total_Score (score p) \<le> sc" by blast
  then have "count_list xs p < 2 * count_list xs p" using count_list_pos [of xs p] by simp
  then show ?thesis using filter_loop_both [OF p(2,3)] True by simp
next
  case False
  then show ?thesis using filter_loop_clean [of xs bl sc xs] by simp
qed

lemma filter_loop_prefix:
  fixes snap :: "'r Post list"
  assumes "\<forall>q \<in> set snap. \<not> (blacklisted bl q \<and> total_Score (score q) \<le> sc)"
    and "\<forall>v. blacklisted bl v \<or> total_Score (score v) \<le> sc \<longrightarrow> count_list snap v \<le> count_list cur v"
  shows "\<exists>cur'. filter_loop bl sc snap cur = Inr cur' \<and>
     (\<forall>v. count_list cur' v =
        count_list cur v -
          (if blacklisted bl v \<or> total_Score (score v) \<le> sc then count_list snap v else 0))"
  using assms
proof (induction snap arbitrary: cur)
  case Nil
  then show ?case by simp
next
  case (Cons p snap)
  define dropped :: "'r Post \<Rightarrow> bool"
    where "dropped v \<longleftrightarrow> blacklisted bl v \<or> total_Score (score v) \<le> sc" for v
  have clean: "\<forall>q \<in> set snap. \<not> (blacklisted bl q \<and> total_Score (score q) \<le> sc)"
    using Cons.prems(1) by simp
  have le0: "count_list (p # snap) v \<le> count_list cur v" if "dropped v" for v
    using Cons.prems(2) that unfolding dropped_def by blast
  show ?case
  proof (cases "dropped p")
    case False
    then have st: "filter_step bl sc p cur = Inr cur"
      by (simp add: filter_step_def dropped_def)
    have ne: "v \<noteq> p" if "dropped v" for v using that False by auto
    have le: "\<forall>v. blacklisted bl v \<or> total_Score (score v) \<le> sc \<longrightarrow>
        count_list snap v \<le> count_list cur v"
    proof (intro allI impI)
      fix v :: "'r Post"
      assume "blacklisted bl v \<or> total_Score (score v) \<le> sc"
      then have d: "dropped v" by (simp add: dropped_def)
      show "count_list snap v \<le> count_list cur v" using le0 [OF d] ne [OF d] by simp
    qed
    from Cons.IH [OF clean le] obtain cur' where
      c1: "filter_loop bl sc snap cur = Inr cur'" and
      c2: "\<And>v. count_list cur' v =
            count_list cur v -
              (if blacklisted bl v \<or> total_Score (score v) \<le> sc then count_list snap v else 0)"
      by blast
    have "count_list cur' v =
        count_list cur v -
          (if blacklisted bl v \<or> total_Score (score v) \<le> sc then count_list (p # snap) v else 0)" for v
    proof (cases "dropped v")
      case True
      then show ?thesis using c2 [of v] ne [OF True] by simp
    next
      case False
      then show ?thesis using c2 [of v] by (simp add: dropped_def)
    qed
    moreover have "filter_loop bl sc (p # snap) cur = Inr cur'" using st c1 by simp
    ultimately show ?thesis by blast
  next
    case True
    have one: "\<not> (blacklisted bl p \<and> total_Score (score p) \<le> sc)" using Cons.prems(1) by simp
    have "Suc (count_list snap p) \<le> count_list cur p" using le0 [OF True] by simp
    then have "0 < count_list cur p" by simp
    then have mem: "p \<in> set cur" by (simp only: count_list_pos)
    have st: "filter_step bl sc p cur = Inr (remove1 p cur)"
    proof (cases "blacklisted bl p")
      case True
      then have "\<not> total_Score (score p) \<le> sc" using one by simp
      then show ?thesis using True mem by (simp add: filter_step_def remove_eq)
    next
      case False
      then have "total_Score (score p) \<le> sc" using True by (simp add: dropped_def)
      then show ?thesis using False mem by (simp add: filter_step_def remove_eq)
    qed
    have rm: "count_list (remove1 p cur) v = (if v = p then count_list cur v - 1 else count_list cur v)" for v
      using mem by (simp add: count_list_remove1)
    have le: "\<forall>v. blacklisted bl v \<or> total_Score (score v) \<le> sc \<longrightarrow>
        count_list snap v \<le> count_list (remove1 p cur) v"
    proof (intro allI impI)
      fix v :: "'r Post"
      assume "blacklisted bl v \<or> total_Score (score v) \<le> sc"
      then have d: "dropped v" by (simp add: dropped_def)
      show "count_list snap v \<le> count_list (remove1 p cur) v"
        using le0 [OF d] by (cases "v = p") (simp_all add: rm)
    qed
    from Cons.IH [OF clean le] obtain cur' where
      c1: "filter_loop bl sc snap (remove1 p cur) = Inr cur'" and
      c2: "\<And>v. count_list cur' v =
            count_list (remove1 p cur) v -
              (if blacklisted bl v \<or> total_Score (score v) \<le> sc then count_list snap v else 0)"
      by blast
    have "count_list cur' v =
        count_list cur v -
          (if blacklisted bl v \<or> total_Score (score v) \<le> sc then count_list (p # snap) v else 0)" for v
    proof (cases "v = p")
      case True
      have "blacklisted bl p \<or> total_Score (score p) \<le> sc" using \<open>dropped p\<close> by (simp add: dropped_def)
      then show ?thesis using c2 [of p] True by (simp add: rm)
    next
      case False
      then show ?thesis using c2 [of v] by (simp add: rm)
    qed
    moreover have "filter_loop bl sc (p # snap) cur = Inr cur'" using st c1 by simp
    ultimately show ?thesis by blast
  qed
qed

lemma snd_search:
  "snd (search srv tgs limit page safe blacklist sc s) =
     (case accumulated srv tgs limit page safe s of
        Inl e \<Rightarrow> Inl e
      | Inr acc \<Rightarrow>
          (case filter_loop (blacklist_or_empty blacklist) sc acc acc of
             Inl e \<Rightarrow> Inl e
           | Inr kept \<Rightarrow> Inr \<lparr>posts = kept\<rparr>))"
  by (simp add: search_def accumulated_def base_url_def blacklist_or_empty_def
      split: prod.splits sum.splits option.splits)

lemma search_returns:
  assumes "snd (search srv tgs limit page safe blacklist sc s) = Inr r"
  obtains acc where "accumulated srv tgs limit page safe s = Inr acc"
    and "\<forall>p \<in> set acc. \<not> (blacklisted (blacklist_or_empty blacklist) p \<and> total_Score (score p) \<le> sc)"
    and "posts r = filter (\<lambda>p. \<not> blacklisted (blacklist_or_empty blacklist) p \<and> \<not> total_Score (score p) \<le> sc) acc"
  using assms unfolding snd_search filter_loop_eq
  by (auto split: sum.splits if_splits)

lemma set_all_Tags:
  "set (all_Tags t) =
     set (general t) \<union> set (species t) \<union> set (character t) \<union> set (copyright t) \<union>
     set (artist t) \<union> set (invalid t) \<union> set (lore t) \<union> set (meta t)"
  by (auto simp: all_Tags_def)

lemma blacklisted_iff: "blacklisted bl p \<longleftrightarrow> (\<exists>item \<in> set (all_Tags (tags p)). item \<in> set bl)"
  by (simp add: blacklisted_def list_ex_iff)

text \<open>
  A sequence that \<^verbatim>\<open>search\<close> returns holds no post with a blacklisted tag in any of its
  eight tag categories.
\<close>

lemma search_result_not_blacklisted:
  assumes "snd (search srv tgs limit page safe (Some blacklist) sc s) = Inr r"
    and "item \<in> set blacklist"
    and "item \<in> set (general (tags p)) \<union> set (species (tags p)) \<union> set (character (tags p)) \<union>
           set (copyright (tags p)) \<union> set (artist (tags p)) \<union> set (invalid (tags p)) \<union>
           set (lore (tags p)) \<union> set (meta (tags p))"
  shows "p \<notin> set (posts r)"
proof -
  have b: "blacklisted blacklist p"
    using assms(2,3) unfolding blacklisted_iff set_all_Tags by blast
  from assms(1) obtain acc where
    "posts r = filter (\<lambda>p. \<not> blacklisted (blacklist_or_empty (Some blacklist)) p \<and> \<not> total_Score (score p) \<le> sc) acc"
    by (rule search_returns)
  then show ?thesis using b by (simp add: blacklist_or_empty_def)
qed

text \<open>
  Claim C5 says that a post with a blacklisted tag is left out of the sequence that
  \<^verbatim>\<open>search\<close> returns, whatever its score. The code does so only for a total score above the
  threshold. Two posts come back from the server, the second tagged \<^verbatim>\<open>gore\<close>, and \<^verbatim>\<open>gore\<close>
  is blacklisted with the default threshold -10: when the second post has the total score
  -50, \<^verbatim>\<open>search\<close> returns no sequence at all but raises \<open>ValueError\<close>, the post being removed
  for its tag and then removed again for its score; when it has the total score 100, the
  sequence returned is the first post alone.
\<close>

theorem search_blacklisted_low_score_raises:
  "snd (search (serve_posts [example_post 1 10 [''fox''] False, example_post 2 (- 50) [''gore''] False])
          [''fox''] 160 1 False (Some [''gore'']) (- 10) (init 1000000)) = Inl ValueError
   \<and> snd (search (serve_posts [example_post 1 10 [''fox''] False, example_post 2 100 [''gore''] False])
          [''fox''] 160 1 False (Some [''gore'']) (- 10) (init 1000000)) =
       Inr \<lparr>posts = [example_post 1 10 [''fox''] False]\<rparr>"
  by code_simp

text \<open>
  Claim C6. With the default blacklist, \<^verbatim>\<open>search\<close> returns the accumulated posts in arrival
  order without exactly those whose total score is at or below the threshold. The same
  holds with any blacklist that no accumulated post meets; and with any blacklist at all,
  a sequence that \<^verbatim>\<open>search\<close> returns holds, in arrival order, the accumulated posts that are
  neither blacklisted nor at or below the threshold, so that every post at or below the
  threshold is dropped.
\<close>

theorem search_score_filter:
  assumes "accumulated srv tgs limit page safe s = Inr acc"
  shows "snd (search srv tgs limit page safe None sc s) =
           Inr \<lparr>posts = filter (\<lambda>p. \<not> total_Score (score p) \<le> sc) acc\<rparr>
       \<and> ((\<forall>p \<in> set acc. \<not> blacklisted (blacklist_or_empty blacklist) p) \<longrightarrow>
            snd (search srv tgs limit page safe blacklist sc s) =
              Inr \<lparr>posts = filter (\<lambda>p. \<not> total_Score (score p) \<le> sc) acc\<rparr>)
       \<and> (snd (search srv tgs limit page safe blacklist sc s) = Inr r \<longrightarrow>
            posts r = filter (\<lambda>p. \<not> blacklisted (blacklist_or_empty blacklist) p \<and>
                                  \<not> total_Score (score p) \<le> sc) acc)"
proof -
  have clean: "snd (search srv tgs limit page safe bl sc s) =
      Inr \<lparr>posts = filter (\<lambda>p. \<not> total_Score (score p) \<le> sc) acc\<rparr>"
    if c: "\<forall>p \<in> set acc. \<not> blacklisted (blacklist_or_empty bl) p" for bl
  proof -
    have "filter (\<lambda>p. \<not> blacklisted (blacklist_or_empty bl) p \<and> \<not> total_Score (score p) \<le> sc) acc
        = filter (\<lambda>p. \<not> total_Score (score p) \<le> sc) acc"
      using c by (auto intro: filter_cong)
    then show ?thesis using assms c by (simp add: snd_search filter_loop_eq)
  qed
  have none: "\<forall>p \<in> set acc. \<not> blacklisted (blacklist_or_empty None) p"
    by (simp add: blacklisted_def blacklist_or_empty_def list_ex_iff)
  have ret: "posts r = filter (\<lambda>p. \<not> blacklisted (blacklist_or_empty blacklist) p \<and>
                                  \<not> total_Score (score p) \<le> sc) acc"
    if "snd (search srv tgs limit page safe blacklist sc s) = Inr r"
    using that assms by (auto elim!: search_returns)
  show ?thesis using clean [OF none] clean [of blacklist] ret by blast
qed

text \<open>Scores 10, -10 and -20 with threshold -10: the post with score 10 alone is kept.\<close>

theorem search_score_filter_witness:
  "snd (search (serve_posts [example_post 1 10 [] False, example_post 2 (- 10) [] False,
                             example_post 3 (- 20) [] False])
          [''fox''] 160 1 False None (- 10) (init 1000000)) =
     Inr \<lparr>posts = [example_post 1 10 [] False]\<rparr>
   \<and> snd (search (serve_posts [example_post 1 10 [] False, example_post 2 (- 10) [] False,
                             example_post 3 (- 20) [] False])
          [''fox''] 160 1 False (Some [''gore'']) (- 10) (init 1000000)) =
     Inr \<lparr>posts = [example_post 1 10 [] False]\<rparr>
   \<and> [example_post 1 10 [] False] =
       filter (\<lambda>p. \<not> blacklisted [''gore''] p \<and> \<not> total_Score (score p) \<le> - 10)
         [example_post 1 10 [] False, example_post 2 (- 10) [] False, example_post 3 (- 20) [] False]"
proof -
  let ?acc = "[example_post 1 10 [] False, example_post 2 (- 10) [] False, example_post 3 (- 20) [] False]"
  have a: "accumulated (serve_posts ?acc) [''fox''] 160 1 False (init 1000000) = Inr ?acc"
    by code_simp
  have k: "filter (\<lambda>p. \<not> total_Score (score p) \<le> - 10) ?acc = [example_post 1 10 [] False]"
    by (simp add: example_post_def)
  have c: "\<forall>p \<in> set ?acc. \<not> blacklisted (blacklist_or_empty (Some [''gore''])) p"
    by (simp add: blacklisted_def blacklist_or_empty_def example_post_def all_Tags_def)
  note T = search_score_filter [OF a, of "- 10" "Some [''gore'']" "\<lparr>posts = [example_post 1 10 [] False]\<rparr>"]
  from T have h1: "snd (search (serve_posts ?acc) [''fox''] 160 1 False None (- 10) (init 1000000)) =
      Inr \<lparr>posts = [example_post 1 10 [] False]\<rparr>"
    unfolding k by (rule conjunct1)
  from T [THEN conjunct2, THEN conjunct1, THEN mp, OF c]
  have h2: "snd (search (serve_posts ?acc) [''fox''] 160 1 False (Some [''gore'']) (- 10)
      (init 1000000)) = Inr \<lparr>posts = [example_post 1 10 [] False]\<rparr>"
    unfolding k .
  from T [THEN conjunct2, THEN conjunct2, THEN mp, OF h2]
  have h3: "[example_post 1 10 [] False] =
      filter (\<lambda>p. \<not> blacklisted [''gore''] p \<and> \<not> total_Score (score p) \<le> - 10) ?acc"
    by (simp add: blacklist_or_empty_def)
  show ?thesis using h1 h2 h3 by (intro conjI)
qed

text \<open>
  Claim C9. If an accumulated post occurs once, is blacklisted and has a total score at or
  below the threshold, \<^verbatim>\<open>search\<close> raises \<open>ValueError\<close>. On a list that holds the post once,
  the first \<^verbatim>\<open>remove\<close> of the loop body takes it out and the second finds nothing to remove;
  and the loop does reach the post with the list in that state when no post before it in
  the snapshot is itself both blacklisted and at or below the threshold.
\<close>

theorem search_double_remove:
  assumes "accumulated srv tgs limit page safe s = Inr acc"
    and "count_list acc p = 1"
    and "blacklisted blacklist p"
    and "total_Score (score p) \<le> sc"
  shows "snd (search srv tgs limit page safe (Some blacklist) sc s) = Inl ValueError
       \<and> (count_list cur p = 1 \<longrightarrow>
            remove p cur = Inr (remove1 p cur) \<and> remove p (remove1 p cur) = Inl ValueError \<and>
            filter_step blacklist sc p cur = Inl ValueError)
       \<and> (acc = before @ p # rest \<and>
          (\<forall>q \<in> set before. \<not> (blacklisted blacklist q \<and> total_Score (score q) \<le> sc)) \<longrightarrow>
            (\<exists>cur. filter_loop blacklist sc before acc = Inr cur \<and> count_list cur p = 1))"
proof (intro conjI impI)
  have "p \<in> set acc" using assms(2) count_list_pos [of acc p] by simp
  then show "snd (search srv tgs limit page safe (Some blacklist) sc s) = Inl ValueError"
    using assms by (auto simp: snd_search filter_loop_eq blacklist_or_empty_def)
next
  assume c: "count_list cur p = 1"
  then have m: "p \<in> set cur" using count_list_pos [of cur p] by simp
  have "count_list (remove1 p cur) p = 0" using c m by (simp add: count_list_remove1)
  then have n: "p \<notin> set (remove1 p cur)" using count_list_pos [of "remove1 p cur" p] by simp
  show "remove p cur = Inr (remove1 p cur)" using m by (simp add: remove_eq)
  show "remove p (remove1 p cur) = Inl ValueError" using n by (simp add: remove_eq)
  show "filter_step blacklist sc p cur = Inl ValueError"
    using m n assms(3,4) by (simp add: filter_step_def remove_eq)
next
  assume a: "acc = before @ p # rest \<and>
    (\<forall>q \<in> set before. \<not> (blacklisted blacklist q \<and> total_Score (score q) \<le> sc))"
  then have acc: "acc = before @ p # rest" and clean: "\<forall>q \<in> set before. \<not> (blacklisted blacklist q \<and> total_Score (score q) \<le> sc)"
    by simp_all
  have le: "\<forall>v. blacklisted blacklist v \<or> total_Score (score v) \<le> sc \<longrightarrow>
      count_list before v \<le> count_list acc v"
    by (simp add: acc)
  from filter_loop_prefix [OF clean le] obtain cur where
    c: "filter_loop blacklist sc before acc = Inr cur"
      "\<forall>v. count_list cur v = count_list acc v -
         (if blacklisted blacklist v \<or> total_Score (score v) \<le> sc then count_list before v else 0)"
    by auto
  have "count_list before p = 0" using assms(2) by (simp add: acc)
  then have "count_list cur p = 1" using c(2) assms(2) by simp
  then show "\<exists>cur. filter_loop blacklist sc before acc = Inr cur \<and> count_list cur p = 1"
    using c(1) by blast
qed

theorem search_double_remove_witness:
  "snd (search (serve_posts [example_post 1 10 [] False, example_post 2 (- 50) [''gore''] False])
          [''fox''] 160 1 False (Some [''gore'']) (- 10) (init 1000000)) = Inl ValueError
   \<and> filter_step [''gore''] (- 10) (example_post 2 (- 50) [''gore''] False)
        [example_post 1 10 [] False, example_post 2 (- 50) [''gore''] False] = Inl ValueError
   \<and> filter_loop [''gore''] (- 10) [example_post 1 10 [] False]
        [example_post 1 10 [] False, example_post 2 (- 50) [''gore''] False] =
       Inr [example_post 1 10 [] False, example_post 2 (- 50) [''gore''] False]
   \<and> count_list [example_post 1 10 [] False, example_post 2 (- 50) [''gore''] False]
        (example_post 2 (- 50) [''gore''] False) = 1"
proof -
  let ?p1 = "example_post 1 10 [] False"
  let ?p2 = "example_post 2 (- 50) [''gore''] False"
  let ?acc = "[?p1, ?p2]"
  have a: "accumulated (serve_posts ?acc) [''fox''] 160 1 False (init 1000000) = Inr ?acc"
    by code_simp
  have c: "count_list ?acc ?p2 = 1"
    by (simp add: example_post_def)
  have b: "blacklisted [''gore''] ?p2"
    by (simp add: blacklisted_def example_post_def all_Tags_def)
  have t: "total_Score (score ?p2) \<le> - 10"
    by (simp add: example_post_def)
  note T = search_double_remove [OF a c b t, of ?acc "[?p1]" "[]"]
  from T have h1: "snd (search (serve_posts ?acc) [''fox''] 160 1 False (Some [''gore'']) (- 10)
      (init 1000000)) = Inl ValueError" by (rule conjunct1)
  from T [THEN conjunct2, THEN conjunct1, THEN mp, OF c]
  have h2: "filter_step [''gore''] (- 10) ?p2 ?acc = Inl ValueError" by (elim conjE)
  have pre: "?acc = [?p1] @ ?p2 # [] \<and>
      (\<forall>q \<in> set [?p1]. \<not> (blacklisted [''gore''] q \<and> total_Score (score q) \<le> - 10))"
    by (simp add: example_post_def)
  from T [THEN conjunct2, THEN conjunct2, THEN mp, OF pre]
  obtain cur where r: "filter_loop [''gore''] (- 10) [?p1] ?acc = Inr cur" "count_list cur ?p2 = 1"
    by blast
  have h3: "filter_loop [''gore''] (- 10) [?p1] ?acc = Inr ?acc"
    by (simp add: filter_step_def blacklisted_def example_post_def all_Tags_def)
  from r(1) h3 have "cur = ?acc" by simp
  with r(2) have h4: "count_list ?acc ?p2 = 1" by simp
  show ?thesis using h1 h2 h3 h4 by (intro conjI)
qed

section \<open>Resolving the posts of a pool\<close>

lemma scan_posts_eq:
  "scan_posts i ps acc = acc @ filter (\<lambda>p. \<not> deleted (flags p) \<and> id_Post p = i) ps"
  by (induction ps arbitrary: acc) auto

lemma scan_ids_eq:
  "scan_ids ids rs acc =
     acc @ concat (map (\<lambda>i. filter (\<lambda>p. \<not> deleted (flags p) \<and> id_Post p = i) rs) ids)"
  by (induction ids arbitrary: acc) (auto simp: scan_posts_eq)

text \<open>
  Claim C4, as the code has it. \<^verbatim>\<open>get_pool_images\<close> goes through \<^verbatim>\<open>post_ids\<close> in order and,
  for each id, appends every post of the search result that is not flagged deleted and has
  that id, in the order of the search result: the inner loop has no \<^verbatim>\<open>break\<close>. Ids that are
  missing, or whose posts are all flagged deleted, contribute nothing.
\<close>

theorem get_pool_images_all_matches:
  assumes "snd (search srv [''pool:'' @ str_int (id_Pool pl)] 1280 1 False None (- 5000) s) = Inr r"
  shows "snd (get_pool_images srv pl s) =
     Inr \<lparr>posts = concat (map (\<lambda>i. filter (\<lambda>p. \<not> deleted (flags p) \<and> id_Post p = i) (posts r))
                              (post_ids pl))\<rparr>"
proof -
  obtain s' x where e: "search srv [''pool:'' @ str_int (id_Pool pl)] 1280 1 False None (- 5000) s = (s', x)"
    by (cases "search srv [''pool:'' @ str_int (id_Pool pl)] 1280 1 False None (- 5000) s")
  with assms have "x = Inr r" by simp
  with e show ?thesis by (simp add: get_pool_images_def scan_ids_eq)
qed

text \<open>
  The specification's example: members 5, 3 and 9, a search result with the posts 5
  (flagged deleted) and 3. The result is the post 3 alone.
\<close>

theorem get_pool_images_all_matches_witness:
  "snd (search (serve_pages [[example_post 5 1 [] True, example_post 3 1 [] False], [], [], []])
          [''pool:7''] 1280 1 False None (- 5000) (init 1000000)) =
     Inr \<lparr>posts = [example_post 5 1 [] True, example_post 3 1 [] False]\<rparr>
   \<and> snd (get_pool_images
          (serve_pages [[example_post 5 1 [] True, example_post 3 1 [] False], [], [], []])
          (example_pool 7 [5, 3, 9]) (init 1000000)) =
     Inr \<lparr>posts = [example_post 3 1 [] False]\<rparr>"
proof -
  let ?srv = "serve_pages [[example_post 5 1 [] True, example_post 3 1 [] False], [], [], []]"
  let ?pl = "example_pool 7 [5, 3, 9]"
  have i: "str_int (id_Pool ?pl) = ''7''"
    by code_simp
  have h: "snd (search ?srv [''pool:'' @ str_int (id_Pool ?pl)] 1280 1 False None (- 5000)
          (init 1000000)) =
     Inr \<lparr>posts = [example_post 5 1 [] True, example_post 3 1 [] False]\<rparr>"
    by code_simp
  have c: "concat (map (\<lambda>i. filter (\<lambda>p. \<not> deleted (flags p) \<and> id_Post p = i)
                 (posts \<lparr>posts = [example_post 5 1 [] True, example_post 3 1 [] False]\<rparr>))
              (post_ids ?pl)) =
           [example_post 3 1 [] False]"
    by (simp add: example_pool_def example_post_def)
  have g: "snd (get_pool_images ?srv ?pl (init 1000000)) = Inr \<lparr>posts = [example_post 3 1 [] False]\<rparr>"
    using get_pool_images_all_matches [OF h] by (simp only: c)
  show ?thesis using g h by (simp add: i)
qed

text \<open>
  Claim C4 as the specification words it, that the first match alone is appended for each
  id, fails when the search result holds a post twice (here the post 3 is on the first page
  and again on the second): the pool has one member and the result two posts.
\<close>

theorem get_pool_images_first_match_counterexample:
  "snd (search (serve_pages [[example_post 3 1 [] False], [example_post 3 1 [] False], [], []])
          [''pool:7''] 1280 1 False None (- 5000) (init 1000000)) =
     Inr \<lparr>posts = [example_post 3 1 [] False, example_post 3 1 [] False]\<rparr>
   \<and> post_ids (example_pool 7 [3]) = [3]
   \<and> snd (get_pool_images (serve_pages [[example_post 3 1 [] False], [example_post 3 1 [] False], [], []])
          (example_pool 7 [3]) (init 1000000)) =
     Inr \<lparr>posts = [example_post 3 1 [] False, example_post 3 1 [] False]\<rparr>"
  by code_simp

section \<open>The limiter and the requests\<close>

lemma trace_api_limiter: "trace (api_limiter s) = trace s @ [Limiter (clock (wait_limiter s))]"
  by (simp add: api_limiter_def Let_def trace_wait_limiter)

lemma trace_search_loop: "\<exists>evs. trace (fst (search_loop srv url tgs limit page acc s)) = trace s @ evs"
proof (induction srv url tgs limit page acc s rule: search_loop.induct)
  case (1 srv url tgs limit page acc s)
  show ?case
  proof (cases "0 < limit")
    case False
    then show ?thesis by (subst search_loop.simps) simp
  next
    case True
    let ?req = "PostsJson url (join tgs) limit page"
    let ?s2 = "sent ?req (api_limiter s)"
    have t2: "trace ?s2 = trace s @ [Limiter (clock (wait_limiter s)), Http ?req]"
      by (simp add: sent_def trace_api_limiter)
    show ?thesis
    proof (cases "status (srv ?req) \<noteq> 200")
      case True
      with \<open>0 < limit\<close> t2 show ?thesis
        by (subst search_loop.simps) (simp add: Let_def)
    next
      case ok: False
      show ?thesis
      proof (cases "posts_of (data (srv ?req))")
        case (Inl e)
        with \<open>0 < limit\<close> ok t2 show ?thesis
          by (subst search_loop.simps) (simp add: Let_def)
      next
        case (Inr ps)
        from "1.IH" [OF True refl refl refl refl ok Inr]
        obtain evs where "trace (fst (search_loop srv url tgs (limit - 320) (page + 1) (acc @ ps) ?s2)) =
            trace ?s2 @ evs" by blast
        with \<open>0 < limit\<close> ok Inr t2 show ?thesis
          by (subst search_loop.simps) (simp add: Let_def)
      qed
    qed
  qed
qed

lemma fst_get_pool_images:
  "fst (get_pool_images srv pl s) =
   fst (search_loop srv (base_url False) [''pool:'' @ str_int (id_Pool pl)] 1280 1 [] s)"
proof -
  obtain s' x where e: "search srv [''pool:'' @ str_int (id_Pool pl)] 1280 1 False None (- 5000) s = (s', x)"
    by (cases "search srv [''pool:'' @ str_int (id_Pool pl)] 1280 1 False None (- 5000) s")
  then have "fst (get_pool_images srv pl s) = s'"
    by (cases x) (simp_all add: get_pool_images_def)
  moreover have "fst (search srv [''pool:'' @ str_int (id_Pool pl)] 1280 1 False None (- 5000) s) = s'"
    using e by simp
  ultimately show ?thesis by (simp add: fst_search)
qed

lemma fst_pool:
  "fst (pool srv pool_id s) =
     (if status (srv (PoolsJsonId pool_id)) = 200
      then (case data (srv (PoolsJsonId pool_id)) of
              PoolsBody (Some pl # rest) \<Rightarrow> fst (get_pool_images srv pl (sent (PoolsJsonId pool_id) s))
            | _ \<Rightarrow> sent (PoolsJsonId pool_id) s)
      else sent (PoolsJsonId pool_id) s)"
  by (simp add: pool_def Let_def split: payload.splits list.splits option.splits prod.splits sum.splits)

lemma trace_pool:
  "\<exists>evs. trace (fst (pool srv pool_id s)) = trace s @ Http (PoolsJsonId pool_id) # evs"
proof -
  let ?s1 = "sent (PoolsJsonId pool_id) s"
  have t1: "trace ?s1 = trace s @ [Http (PoolsJsonId pool_id)]" by (simp add: sent_def)
  have "fst (pool srv pool_id s) = ?s1 \<or> (\<exists>pl. fst (pool srv pool_id s) = fst (get_pool_images srv pl ?s1))"
    unfolding fst_pool by (auto split: payload.splits list.splits option.splits)
  then show ?thesis
  proof
    assume "fst (pool srv pool_id s) = ?s1"
    then show ?thesis using t1 by simp
  next
    assume "\<exists>pl. fst (pool srv pool_id s) = fst (get_pool_images srv pl ?s1)"
    then obtain pl where e: "fst (pool srv pool_id s) = fst (get_pool_images srv pl ?s1)" ..
    obtain evs where "trace (fst (get_pool_images srv pl ?s1)) = trace ?s1 @ evs"
      unfolding fst_get_pool_images using trace_search_loop by blast
    then show ?thesis using e t1 by simp
  qed
qed

text \<open>
  Claim C2 fails on \<^verbatim>\<open>pool\<close>, alone among the operations: it sends its request for the pool's
  metadata without calling \<^verbatim>\<open>api_limiter\<close>. On a fresh session the first event of \<^verbatim>\<open>pool\<close> is
  that request, whatever the server and the pool id.
\<close>

theorem pool_request_not_gated:
  "\<not> gated (trace (fst (pool srv pool_id (init t))))"
proof -
  obtain evs where "trace (fst (pool srv pool_id (init t))) = Http (PoolsJsonId pool_id) # evs"
    using trace_pool [of srv pool_id "init t"] by (auto simp: init_def)
  then show ?thesis by simp
qed

text \<open>
  Two runs of \<^verbatim>\<open>pool\<close>: an unknown pool (one request, the limiter never run), and the pool 7
  (the limiter runs before each page of the search, not before the metadata request).
\<close>

lemma pool_not_found_trace:
  "pool (serve_pages []) 8 (init 1000000) =
     (\<lparr>last_search = 0, clock = 1000000, trace = [Http (PoolsJsonId 8)]\<rparr>, Inl (Raised not_found))
   \<and> \<not> gated [Http (PoolsJsonId 8)]"
  by (simp add: pool_def serve_pages_def init_def sent_def)

lemma pool_trace_example:
  "trace (fst (pool (serve_pages [[example_post 5 1 [] True, example_post 3 1 [] False], [], [], []])
       7 (init 1000000))) =
     [Http (PoolsJsonId 7),
      Limiter 1000000, Http (PostsJson ''https://e621.net/'' ''pool:7'' 1280 1),
      Limiter 1500000, Http (PostsJson ''https://e621.net/'' ''pool:7'' 960 2),
      Limiter 2000000, Http (PostsJson ''https://e621.net/'' ''pool:7'' 640 3),
      Limiter 2500000, Http (PostsJson ''https://e621.net/'' ''pool:7'' 320 4)]"
  by code_simp

lemma gated_Limiter: "gated es \<Longrightarrow> gated (es @ [Limiter t])"
  by (induction es rule: gated.induct) simp_all

lemma gated_Limiter_Http: "gated es \<Longrightarrow> gated (es @ [Limiter t, Http r])"
  by (induction es rule: gated.induct) simp_all

lemma gated_call: "gated (trace s) \<Longrightarrow> gated (trace (sent r (api_limiter s)))"
  by (simp add: sent_def trace_api_limiter gated_Limiter_Http)

lemma gated_search_loop:
  "gated (trace s) \<Longrightarrow> gated (trace (fst (search_loop srv url tgs limit page acc s)))"
proof (induction srv url tgs limit page acc s rule: search_loop.induct)
  case (1 srv url tgs limit page acc s)
  show ?case
  proof (cases "0 < limit")
    case False
    then show ?thesis using "1.prems" by (subst search_loop.simps) simp
  next
    case True
    let ?req = "PostsJson url (join tgs) limit page"
    let ?s2 = "sent ?req (api_limiter s)"
    have g2: "gated (trace ?s2)" using "1.prems" by (rule gated_call)
    show ?thesis
    proof (cases "status (srv ?req) \<noteq> 200")
      case True
      with \<open>0 < limit\<close> g2 show ?thesis
        by (subst search_loop.simps) (simp add: Let_def)
    next
      case ok: False
      show ?thesis
      proof (cases "posts_of (data (srv ?req))")
        case (Inl e)
        with \<open>0 < limit\<close> ok g2 show ?thesis
          by (subst search_loop.simps) (simp add: Let_def)
      next
        case (Inr ps)
        from "1.IH" [OF True refl refl refl refl ok Inr g2] \<open>0 < limit\<close> ok Inr show ?thesis
          by (subst search_loop.simps) (simp add: Let_def)
      qed
    qed
  qed
qed

text \<open>
  The other operations do pass the limiter before each request: from a gated trace they
  leave a gated trace.
\<close>

theorem limiter_gates_siblings:
  "gated (trace s) \<Longrightarrow>
     gated (trace (fst (post srv i s)))
   \<and> gated (trace (fst (search srv tgs limit page safe blacklist sc s)))
   \<and> gated (trace (fst (get_pool_images srv pl s)))
   \<and> gated (trace (fst (pool_search srv q s)))
   \<and> gated (trace (fst (wiki srv w s)))"
proof (intro conjI)
  assume g: "gated (trace s)"
  have c: "gated (trace (sent r (api_limiter s)))" for r using g by (rule gated_call)
  show "gated (trace (fst (post srv i s)))"
    using c by (simp add: post_def Let_def split: payload.splits option.splits)
  show "gated (trace (fst (search srv tgs limit page safe blacklist sc s)))"
    using g by (simp add: fst_search gated_search_loop)
  show "gated (trace (fst (get_pool_images srv pl s)))"
    using g by (simp add: fst_get_pool_images gated_search_loop)
  show "gated (trace (fst (pool_search srv q s)))"
    using c by (simp add: pool_search_def Let_def split: payload.splits)
  show "gated (trace (fst (wiki srv w s)))"
    using c g by (simp add: wiki_def Let_def trace_api_limiter gated_Limiter split: payload.splits option.splits)
qed

theorem limiter_gates_siblings_witness:
  "gated (trace (fst (post (serve_pages []) 1 (init 1000000))))
   \<and> gated (trace (fst (search (serve_posts []) [''fox''] 500 1 False None (- 10) (init 1000000))))
   \<and> gated (trace (fst (get_pool_images (serve_posts []) (example_pool 7 [5, 3, 9]) (init 1000000))))
   \<and> gated (trace (fst (pool_search (serve_pages []) ''fox'' (init 1000000))))
   \<and> gated (trace (fst (wiki (serve_pages []) (QInt 0) (init 1000000))))
   \<and> trace (fst (search (serve_posts []) [''fox''] 500 1 False None (- 10) (init 1000000))) =
       [Limiter 1000000, Http (PostsJson ''https://e621.net/'' ''fox'' 500 1),
        Limiter 1500000, Http (PostsJson ''https://e621.net/'' ''fox'' 180 2)]"
proof -
  have g: "gated (trace (init 1000000))" by (simp add: init_def)
  have t: "trace (fst (search (serve_posts []) [''fox''] 500 1 False None (- 10) (init 1000000))) =
       [Limiter 1000000, Http (PostsJson ''https://e621.net/'' ''fox'' 500 1),
        Limiter 1500000, Http (PostsJson ''https://e621.net/'' ''fox'' 180 2)]"
    by code_simp
  show ?thesis
    using limiter_gates_siblings [OF g, of "serve_pages []" 1] 
      limiter_gates_siblings [OF g, of "serve_posts []" _ "[''fox'']" 500 1 False None "- 10" "example_pool 7 [5, 3, 9]"]
      limiter_gates_siblings [OF g, of "serve_pages []" _ _ _ _ _ _ _ _ "''fox''" "QInt 0"] t
    by simp
qed

lemma wait_limiter_spec:
  "last_search (wait_limiter s) = last_search s \<and> last_search s + 500000 \<le> clock (wait_limiter s)
   \<and> clock s \<le> clock (wait_limiter s)"
proof (induction s rule: wait_limiter.induct)
  case (1 s)
  show ?case
  proof (cases "clock s < last_search s + 500000")
    case True
    then have "wait_limiter s = wait_limiter (s\<lparr>clock := clock s + 10000\<rparr>)"
      by (subst wait_limiter.simps) simp
    then show ?thesis using "1.IH" True by simp
  next
    case False
    then have "wait_limiter s = s" by (subst wait_limiter.simps) simp
    then show ?thesis using False by simp
  qed
qed

text \<open>
  One pass through the limiter, in a single thread of control: it returns with
  \<^verbatim>\<open>last_search\<close> set to the clock, at least half a second after the previous stamp.
\<close>

theorem api_limiter_spacing:
  "last_search (api_limiter s) = clock (api_limiter s)
   \<and> last_search s + 500000 \<le> last_search (api_limiter s)
   \<and> clock s \<le> clock (api_limiter s)
   \<and> trace (api_limiter s) = trace s @ [Limiter (last_search (api_limiter s))]"
  using wait_limiter_spec [of s] by (simp add: api_limiter_def Let_def trace_wait_limiter)

section \<open>Responses with a status other than 200\<close>

lemma pages_pos: "0 < nat \<lceil>real_of_int limit / 320\<rceil> \<Longrightarrow> 0 < limit"
  using pages_none [of limit] by (cases "0 < limit") simp_all

lemma page_request_0: "page_request url tgs limit page 0 = PostsJson url (join tgs) limit page"
  by (simp add: page_request_def)

lemma map_page_request_Suc:
  "map (page_request url tgs limit page) [0..<Suc n] =
   PostsJson url (join tgs) limit page # map (page_request url tgs (limit - 320) (page + 1)) [0..<n]"
  by (simp add: upt_conv_Cons map_Suc_upt [symmetric] page_request_shift page_request_0 del: upt_Suc)

lemma search_loop_abort:
  assumes "k < nat \<lceil>real_of_int limit / 320\<rceil>"
    and "\<forall>j < k. page_ok srv (page_request url tgs limit page j)"
    and "status (srv (page_request url tgs limit page k)) \<noteq> 200"
  shows "search_loop srv url tgs limit page acc s =
           (fst (search_loop srv url tgs limit page acc s),
            Inl (error_of (data (srv (page_request url tgs limit page k)))))
       \<and> requests_of (trace (fst (search_loop srv url tgs limit page acc s))) =
           requests_of (trace s) @ map (page_request url tgs limit page) [0..<Suc k]"
  using assms
proof (induction k arbitrary: limit page acc s)
  case 0
  have pos: "0 < limit" using "0.prems"(1) by (rule pages_pos)
  let ?req = "PostsJson url (join tgs) limit page"
  have st: "status (srv ?req) \<noteq> 200" using "0.prems"(3) by (simp add: page_request_0)
  have "search_loop srv url tgs limit page acc s =
      (sent ?req (api_limiter s), Inl (error_of (data (srv ?req))))"
    using pos st by (subst search_loop.simps) (simp add: Let_def)
  then show ?case
    by (simp add: page_request_0 requests_sent requests_api_limiter)
next
  case (Suc k)
  have "0 < nat \<lceil>real_of_int limit / 320\<rceil>" using Suc.prems(1) by linarith
  then have pos: "0 < limit" by (rule pages_pos)
  let ?req = "PostsJson url (join tgs) limit page"
  let ?s2 = "sent ?req (api_limiter s)"
  have "page_ok srv (page_request url tgs limit page 0)" using Suc.prems(2) by simp
  then obtain ps where st: "status (srv ?req) = 200" and ps: "posts_of (data (srv ?req)) = Inr ps"
    by (cases "posts_of (data (srv ?req))") (auto simp: page_ok_def page_request_0)
  have unf: "search_loop srv url tgs limit page acc s =
      search_loop srv url tgs (limit - 320) (page + 1) (acc @ ps) ?s2"
    using pos st ps by (subst search_loop.simps) (simp add: Let_def)
  have k: "k < nat \<lceil>real_of_int (limit - 320) / 320\<rceil>"
    using Suc.prems(1) pages_step [OF pos] by simp
  have oks: "\<forall>j < k. page_ok srv (page_request url tgs (limit - 320) (page + 1) j)"
    using Suc.prems(2) by (simp add: page_request_shift)
  have bad: "status (srv (page_request url tgs (limit - 320) (page + 1) k)) \<noteq> 200"
    using Suc.prems(3) by (simp add: page_request_shift)
  have m: "map (page_request url tgs limit page) [0..<Suc (Suc k)] =
      ?req # map (page_request url tgs (limit - 320) (page + 1)) [0..<Suc k]"
    by (rule map_page_request_Suc)
  show ?case
    unfolding unf m using Suc.IH [OF k oks bad, of "acc @ ps" ?s2]
    by (simp add: page_request_shift requests_sent requests_api_limiter)
qed

lemma snd_get_pool_images_error:
  "snd (search srv [''pool:'' @ str_int (id_Pool pl)] 1280 1 False None (- 5000) s) = Inl x \<Longrightarrow>
   snd (get_pool_images srv pl s) = Inl x"
  by (cases "search srv [''pool:'' @ str_int (id_Pool pl)] 1280 1 False None (- 5000) s")
    (simp add: get_pool_images_def)

lemma search_abort:
  assumes "k < nat \<lceil>real_of_int limit / 320\<rceil>"
    and "\<forall>j < k. page_ok srv (page_request (base_url safe) tgs limit page j)"
    and "status (srv (page_request (base_url safe) tgs limit page k)) \<noteq> 200"
  shows "snd (search srv tgs limit page safe blacklist sc s) =
           Inl (error_of (data (srv (page_request (base_url safe) tgs limit page k))))"
    and "requests_of (trace (fst (search srv tgs limit page safe blacklist sc s))) =
           requests_of (trace s) @ map (page_request (base_url safe) tgs limit page) [0..<Suc k]"
proof -
  note a = search_loop_abort [OF assms, of "[]" s]
  from a have "snd (search_loop srv (base_url safe) tgs limit page [] s) =
      Inl (error_of (data (srv (page_request (base_url safe) tgs limit page k))))"
    by (metis snd_conv)
  then have "accumulated srv tgs limit page safe s =
      Inl (error_of (data (srv (page_request (base_url safe) tgs limit page k))))"
    by (simp add: accumulated_def)
  then show "snd (search srv tgs limit page safe blacklist sc s) =
           Inl (error_of (data (srv (page_request (base_url safe) tgs limit page k))))"
    by (simp add: snd_search)
  show "requests_of (trace (fst (search srv tgs limit page safe blacklist sc s))) =
           requests_of (trace s) @ map (page_request (base_url safe) tgs limit page) [0..<Suc k]"
    using a by (simp add: fst_search)
qed

lemma post_error:
  "status (srv (PostJson i)) \<noteq> 200 \<Longrightarrow>
   snd (post srv i s) =
     Inl (case data (srv (PostJson i)) of Malformed \<Rightarrow> DecodeError | b \<Rightarrow> error_of b)"
  by (simp add: post_def Let_def split: payload.splits)

lemma pool_search_error:
  "status (srv (PoolsJsonName q)) \<noteq> 200 \<Longrightarrow>
   snd (pool_search srv q s) = Inl (error_of (data (srv (PoolsJsonName q))))"
  by (simp add: pool_search_def Let_def)

lemma pool_error:
  "status (srv (PoolsJsonId i)) \<noteq> 200 \<Longrightarrow>
   snd (pool srv i s) = Inl (error_of (data (srv (PoolsJsonId i))))"
  by (simp add: pool_def Let_def)

lemma wiki_error:
  "\<not> falsy w \<Longrightarrow> status (srv (WikiJson w)) \<noteq> 200 \<Longrightarrow>
   snd (wiki srv w s) = Inl (error_of (data (srv (WikiJson w))))"
  by (simp add: wiki_def Let_def)

lemma pool_nested_error:
  assumes "status (srv (PoolsJsonId i)) = 200"
    and "data (srv (PoolsJsonId i)) = PoolsBody (Some pl # rest)"
    and "snd (get_pool_images srv pl (sent (PoolsJsonId i) s)) = Inl x"
  shows "snd (pool srv i s) = Inl x"
  using assms
  by (cases "get_pool_images srv pl (sent (PoolsJsonId i) s)") (simp add: pool_def Let_def)

text \<open>
  Claim C7. When a request is answered with a status other than 200, the operation returns
  no result; when the body of that answer decodes to the fields of an error, the operation
  raises \<^verbatim>\<open>E621Error\<close> with these fields. This holds for \<^verbatim>\<open>post\<close>, \<^verbatim>\<open>pool_search\<close>, \<^verbatim>\<open>pool\<close>
  and \<^verbatim>\<open>wiki\<close>; for \<^verbatim>\<open>search\<close>, where the answer to the round \<open>k\<close> of the loop, after \<open>k\<close> good
  pages, ends the call with that error, no further request and no posts; and for
  \<^verbatim>\<open>get_pool_images\<close> and \<^verbatim>\<open>pool\<close>, which pass on the error of their search.
\<close>

theorem non_success_raises_E621Error:
  "(status (srv (PostJson i)) \<noteq> 200 \<longrightarrow>
      isl (snd (post srv i s)) \<and>
      (data (srv (PostJson i)) = ErrorBody e \<longrightarrow> snd (post srv i s) = Inl (Raised e)))
   \<and> (status (srv (PoolsJsonName q)) \<noteq> 200 \<longrightarrow>
      isl (snd (pool_search srv q s)) \<and>
      (data (srv (PoolsJsonName q)) = ErrorBody e \<longrightarrow> snd (pool_search srv q s) = Inl (Raised e)))
   \<and> (status (srv (PoolsJsonId pid)) \<noteq> 200 \<longrightarrow>
      isl (snd (pool srv pid s)) \<and>
      (data (srv (PoolsJsonId pid)) = ErrorBody e \<longrightarrow> snd (pool srv pid s) = Inl (Raised e)))
   \<and> (\<not> falsy w \<and> status (srv (WikiJson w)) \<noteq> 200 \<longrightarrow>
      isl (snd (wiki srv w s)) \<and>
      (data (srv (WikiJson w)) = ErrorBody e \<longrightarrow> snd (wiki srv w s) = Inl (Raised e)))
   \<and> (k < nat \<lceil>real_of_int limit / 320\<rceil> \<and>
      (\<forall>j < k. page_ok srv (page_request (base_url safe) tgs limit page j)) \<and>
      status (srv (page_request (base_url safe) tgs limit page k)) \<noteq> 200 \<longrightarrow>
      isl (snd (search srv tgs limit page safe blacklist sc s)) \<and>
      requests_of (trace (fst (search srv tgs limit page safe blacklist sc s))) =
        requests_of (trace s) @ map (page_request (base_url safe) tgs limit page) [0..<Suc k] \<and>
      (data (srv (page_request (base_url safe) tgs limit page k)) = ErrorBody e \<longrightarrow>
         snd (search srv tgs limit page safe blacklist sc s) = Inl (Raised e)))
   \<and> (k < 4 \<and>
      (\<forall>j < k. page_ok srv (page_request (base_url False) [''pool:'' @ str_int (id_Pool pl)] 1280 1 j)) \<and>
      status (srv (page_request (base_url False) [''pool:'' @ str_int (id_Pool pl)] 1280 1 k)) \<noteq> 200 \<and>
      data (srv (page_request (base_url False) [''pool:'' @ str_int (id_Pool pl)] 1280 1 k)) = ErrorBody e \<longrightarrow>
      snd (get_pool_images srv pl s) = Inl (Raised e) \<and>
      (status (srv (PoolsJsonId pid')) = 200 \<and> data (srv (PoolsJsonId pid')) = PoolsBody (Some pl # rest) \<longrightarrow>
         snd (pool srv pid' s) = Inl (Raised e)))"
proof (intro conjI impI; (elim conjE)?)
  assume "status (srv (PostJson i)) \<noteq> 200"
  then show "isl (snd (post srv i s))" by (simp add: post_error)
next
  assume "status (srv (PostJson i)) \<noteq> 200" "data (srv (PostJson i)) = ErrorBody e"
  then show "snd (post srv i s) = Inl (Raised e)" by (simp add: post_error)
next
  assume "status (srv (PoolsJsonName q)) \<noteq> 200"
  then show "isl (snd (pool_search srv q s))" by (simp add: pool_search_error)
next
  assume "status (srv (PoolsJsonName q)) \<noteq> 200" "data (srv (PoolsJsonName q)) = ErrorBody e"
  then show "snd (pool_search srv q s) = Inl (Raised e)" by (simp add: pool_search_error)
next
  assume "status (srv (PoolsJsonId pid)) \<noteq> 200"
  then show "isl (snd (pool srv pid s))" by (simp add: pool_error)
next
  assume "status (srv (PoolsJsonId pid)) \<noteq> 200" "data (srv (PoolsJsonId pid)) = ErrorBody e"
  then show "snd (pool srv pid s) = Inl (Raised e)" by (simp add: pool_error)
next
  assume "\<not> falsy w" "status (srv (WikiJson w)) \<noteq> 200"
  then show "isl (snd (wiki srv w s))" by (simp add: wiki_error)
next
  assume "\<not> falsy w" "status (srv (WikiJson w)) \<noteq> 200" "data (srv (WikiJson w)) = ErrorBody e"
  then show "snd (wiki srv w s) = Inl (Raised e)" by (simp add: wiki_error)
next
  assume a: "k < nat \<lceil>real_of_int limit / 320\<rceil>"
    "\<forall>j < k. page_ok srv (page_request (base_url safe) tgs limit page j)"
    "status (srv (page_request (base_url safe) tgs limit page k)) \<noteq> 200"
  show "isl (snd (search srv tgs limit page safe blacklist sc s))"
    by (simp add: search_abort(1) [OF a])
  show "requests_of (trace (fst (search srv tgs limit page safe blacklist sc s))) =
        requests_of (trace s) @ map (page_request (base_url safe) tgs limit page) [0..<Suc k]"
    by (rule search_abort(2) [OF a])
  assume "data (srv (page_request (base_url safe) tgs limit page k)) = ErrorBody e"
  then show "snd (search srv tgs limit page safe blacklist sc s) = Inl (Raised e)"
    by (simp add: search_abort(1) [OF a])
next
  assume k: "k < 4"
    and a: "\<forall>j < k. page_ok srv (page_request (base_url False) [''pool:'' @ str_int (id_Pool pl)] 1280 1 j)"
    "status (srv (page_request (base_url False) [''pool:'' @ str_int (id_Pool pl)] 1280 1 k)) \<noteq> 200"
    and e: "data (srv (page_request (base_url False) [''pool:'' @ str_int (id_Pool pl)] 1280 1 k)) = ErrorBody e"
  have n: "k < nat \<lceil>real_of_int 1280 / 320\<rceil>" using k by simp
  have g: "snd (get_pool_images srv pl s') = Inl (Raised e)" for s'
    using search_abort(1) [OF n a, of None "- 5000" s'] e
    by (simp add: snd_get_pool_images_error)
  show "snd (get_pool_images srv pl s) = Inl (Raised e)" by (rule g)
  assume "status (srv (PoolsJsonId pid')) = 200" "data (srv (PoolsJsonId pid')) = PoolsBody (Some pl # rest)"
  then show "snd (pool srv pid' s) = Inl (Raised e)"
    using g by (rule pool_nested_error)
qed

theorem non_success_raises_E621Error_witness:
  "snd (post (serve_pages [[example_post 1 10 [] False]]) 1 (init 1000000)) = Inl (Raised not_found)
   \<and> snd (pool_search (serve_pages [[example_post 1 10 [] False]]) ''fox'' (init 1000000)) =
       Inl (Raised not_found)
   \<and> snd (pool (serve_pages [[example_post 1 10 [] False]]) 8 (init 1000000)) = Inl (Raised not_found)
   \<and> snd (wiki (serve_pages [[example_post 1 10 [] False]]) (QStr ''fox'') (init 1000000)) =
       Inl (Raised not_found)
   \<and> snd (search (serve_pages [[example_post 1 10 [] False]]) [''fox''] 500 1 False None (- 10)
          (init 1000000)) = Inl (Raised not_found)
   \<and> requests_of (trace (fst (search (serve_pages [[example_post 1 10 [] False]]) [''fox''] 500 1
          False None (- 10) (init 1000000)))) =
       [PostsJson ''https://e621.net/'' ''fox'' 500 1, PostsJson ''https://e621.net/'' ''fox'' 180 2]
   \<and> snd (get_pool_images (serve_pages [[example_post 1 10 [] False]]) (example_pool 7 [5, 3, 9])
          (init 1000000)) = Inl (Raised not_found)
   \<and> snd (pool (serve_pages [[example_post 1 10 [] False]]) 7 (init 1000000)) = Inl (Raised not_found)"
proof -
  have n: "nat \<lceil>real_of_int 500 / 320\<rceil> = 2" by simp
  have l: "[0..<2] = [0, Suc 0]" by (simp add: upt_conv_Cons)
  show ?thesis
    using non_success_raises_E621Error [of "serve_pages [[example_post 1 10 [] False]]" 1 "init 1000000"
        not_found "''fox''" 8 "QStr ''fox''" 1 500 False "[''fox'']" 1 None "- 10"
        "example_pool 7 [5, 3, 9]" 7 "[]"]
    by (simp add: n l serve_pages_def page_ok_def page_request_def base_url_def init_def)
qed

end
